theory Spec2Isabelle
  imports Complex_Main "HOL-Library.AList"
begin

section \<open>Data model\<close>

text \<open>
  A Result is a Python dict with the keys title, url, snippet, rank, source and score.
  The code reads \<open>url\<close>, \<open>rank\<close> and \<open>score\<close> with \<open>dict.get\<close>, so these three keys may
  be missing: a missing key is \<open>None\<close> here. For \<open>score\<close> the code treats a missing key
  and the value \<open>None\<close> alike, so both are \<open>None\<close>. Python's ints are unbounded
  (\<open>int\<close>); Python's floats are idealised as exact rationals: rounding, infinities and
  NaN are not modelled. Strings are lists of 8-bit characters, read as ASCII.
\<close>

record result =
  title :: string
  url :: "string option"
  snippet :: string
  rank :: "int option"
  source :: string
  score :: "rat option"

text \<open>
  Results are mutable objects that the code shares and overwrites in place, so they live
  in a store: a reference is an index into the store, \<open>id(r)\<close> is that index, and a new
  dict (\<open>dict.copy()\<close>) is allocated at the end of the store. The lists the functions
  take and return are lists of references. Python has no dangling reference: the
  theorems about a store \<open>h\<close> and a list take every reference of the list to be below
  \<open>length h\<close>.
\<close>

type_synonym ref = nat
type_synonym heap = "result list"

datatype py_error = ZeroDivisionError | KeyError

text \<open>\<open>str(item.get("url", ""))\<close> and \<open>int(item.get("rank", 999999))\<close>.\<close>

definition get_url :: "result \<Rightarrow> string" where
  "get_url r = (case url r of None \<Rightarrow> [] | Some u \<Rightarrow> u)"


section \<open>utils.py: canonicalize_url\<close>

text \<open>\<open>str.strip()\<close> removes the whitespace characters at both ends; in ASCII these are
  TAB, LF, VT, FF, CR, FS, GS, RS, US and the space.\<close>

definition is_space :: "char \<Rightarrow> bool" where
  "is_space c = (c \<in> set [CHR 0x09, CHR 0x0A, CHR 0x0B, CHR 0x0C, CHR 0x0D,
                           CHR 0x1C, CHR 0x1D, CHR 0x1E, CHR 0x1F, CHR 0x20])"

definition strip :: "string \<Rightarrow> string" where
  "strip s = rev (dropWhile is_space (rev (dropWhile is_space s)))"

definition lower_char :: "char \<Rightarrow> char" where
  "lower_char c =
     (case map_of (zip ''ABCDEFGHIJKLMNOPQRSTUVWXYZ'' ''abcdefghijklmnopqrstuvwxyz'') c of
        None \<Rightarrow> c | Some d \<Rightarrow> d)"

definition lower :: "string \<Rightarrow> string" where
  "lower s = map lower_char s"

definition startswith :: "string \<Rightarrow> string \<Rightarrow> bool" where
  "startswith s p = (take (length p) s = p)"

text \<open>
  \<open>re.sub(r"^https?://(www\.)?", "", u)\<close>: the pattern is anchored at the start of the
  string, so it matches at most once: \<open>http\<close>, an optional \<open>s\<close>, \<open>://\<close>, and then
  \<open>www.\<close> when it follows at once (the group is greedy).
\<close>

definition sub_scheme :: "string \<Rightarrow> string" where
  "sub_scheme u =
     (if startswith u ''https://'' then
        (let r = drop 8 u in if startswith r ''www.'' then drop 4 r else r)
      else if startswith u ''http://'' then
        (let r = drop 7 u in if startswith r ''www.'' then drop 4 r else r)
      else u)"

text \<open>
  \<open>re.sub(r"[#?].*$", "", u)\<close>, without flags: \<open>.\<close> matches every character but the
  line feed, and \<open>$\<close> matches at the end of the string or just before a line feed that
  is the last character. A match starts at a \<open>#\<close> or \<open>?\<close>, runs to the next line feed
  or the end, and succeeds only when \<open>$\<close> holds there; otherwise the scan goes on with
  the next character. What is left after a match holds no \<open>#\<close> or \<open>?\<close>.
\<close>

definition end_anchor :: "string \<Rightarrow> bool" where
  "end_anchor rest = (rest = [] \<or> rest = [CHR 0x0A])"

fun sub_query :: "string \<Rightarrow> string" where
  "sub_query [] = []"
| "sub_query (c # cs) =
     (if (c = CHR ''#'' \<or> c = CHR ''?'') \<and> end_anchor (dropWhile (\<lambda>d. d \<noteq> CHR 0x0A) cs)
      then dropWhile (\<lambda>d. d \<noteq> CHR 0x0A) cs
      else c # sub_query cs)"

definition canonicalize_url :: "string \<Rightarrow> string" where
  "canonicalize_url url_str =
     (let u = lower (strip url_str);
          u = sub_scheme u;
          u = sub_query u
      in if u \<noteq> [] \<and> last u = CHR ''/'' then butlast u else u)"

text \<open>
  The canonical form as the specification words it: trim, lowercase, strip a leading
  scheme, strip a \<open>www.\<close> that follows the scheme at once, truncate at the first \<open>?\<close>
  or \<open>#\<close>, strip one trailing slash.
\<close>

definition strip_scheme :: "string \<Rightarrow> string option" where
  "strip_scheme u =
     (if startswith u ''http://'' then Some (drop 7 u)
      else if startswith u ''https://'' then Some (drop 8 u)
      else None)"

definition strip_www :: "string \<Rightarrow> string" where
  "strip_www u = (if startswith u ''www.'' then drop 4 u else u)"

definition truncate_query :: "string \<Rightarrow> string" where
  "truncate_query u = takeWhile (\<lambda>c. c \<noteq> CHR ''?'' \<and> c \<noteq> CHR ''#'') u"

definition strip_slash :: "string \<Rightarrow> string" where
  "strip_slash u = (if u \<noteq> [] \<and> last u = CHR ''/'' then butlast u else u)"

definition canonicalize_spec :: "string \<Rightarrow> string" where
  "canonicalize_spec url_str =
     (let u = lower (strip url_str);
          u = (case strip_scheme u of None \<Rightarrow> u | Some r \<Rightarrow> strip_www r)
      in strip_slash (truncate_query u))"

section \<open>utils.py: deduplicate\<close>

text \<open>The decimal numeral of \<open>id(r)\<close>, as the f-string prints it.\<close>

function str_nat :: "nat \<Rightarrow> string" where
  "str_nat n =
     (if n < 10 then [''0123456789'' ! n]
      else str_nat (n div 10) @ [''0123456789'' ! (n mod 10)])"
  by pat_completeness auto
termination
  by (relation "measure id") auto

declare str_nat.simps [simp del]

text \<open>The key of one item: \<open>f"__empty__:{id(r)}"\<close> for an empty url, and the canonical
  url otherwise. Both kinds of key are strings in the one set \<open>seen\<close>.\<close>

definition dedup_key :: "heap \<Rightarrow> ref \<Rightarrow> string" where
  "dedup_key h r =
     (let u = get_url (h ! r)
      in if u = [] then ''__empty__:'' @ str_nat r else canonicalize_url u)"

text \<open>The first loop, with its variables \<open>seen\<close> and \<open>unique\<close>.\<close>

fun dedup_loop :: "heap \<Rightarrow> ref list \<Rightarrow> string set \<Rightarrow> ref list \<Rightarrow> ref list" where
  "dedup_loop h [] seen unique = unique"
| "dedup_loop h (r # rs) seen unique =
     (let key = dedup_key h r
      in if key \<in> seen then dedup_loop h rs seen unique
         else dedup_loop h rs (insert key seen) (unique @ [r]))"

text \<open>The second loop: \<open>for i, r in enumerate(unique, start=1): r["rank"] = i\<close>
  overwrites the rank of the object itself.\<close>

fun rerank :: "heap \<Rightarrow> ref list \<Rightarrow> int \<Rightarrow> heap" where
  "rerank h [] i = h"
| "rerank h (r # rs) i = rerank (h[r := (h ! r)\<lparr>rank := Some i\<rparr>]) rs (i + 1)"

definition deduplicate :: "heap \<Rightarrow> ref list \<Rightarrow> heap \<times> ref list" where
  "deduplicate h results =
     (let unique = dedup_loop h results {} []
      in (rerank h unique 1, unique))"

section \<open>utils.py: minmax_normalize_scores\<close>





section \<open>fusion.py\<close>






text \<open>\<open>sorted(d.items(), key=lambda x: x[1], reverse=True)\<close>: Python's sort is stable,
  also with \<open>reverse=True\<close>: descending by score, equal scores in their order in
  the dict.\<close>

definition sorted_desc :: "(string \<times> rat) list \<Rightarrow> (string \<times> rat) list" where
  "sorted_desc items = sort_key (\<lambda>x. - snd x) items"







section \<open>The deduplication rule in the specification's words\<close>

text \<open>
  An item repeats an earlier one when it has a url and an earlier item with a url has the
  same canonical url, or when it has no url and is the very object of an earlier entry
  (the key of an item without url is its identity). The survivors are the items that
  repeat none of the items before them, in their order.
\<close>

definition earlier_dup :: "heap \<Rightarrow> ref list \<Rightarrow> ref \<Rightarrow> bool" where
  "earlier_dup h prev r =
     (if get_url (h ! r) = [] then r \<in> set prev
      else (\<exists>p \<in> set prev. get_url (h ! p) \<noteq> [] \<and>
              canonicalize_url (get_url (h ! p)) = canonicalize_url (get_url (h ! r))))"

fun survivors :: "heap \<Rightarrow> ref list \<Rightarrow> ref list \<Rightarrow> ref list" where
  "survivors h prev [] = []"
| "survivors h prev (r # rs) =
     (if earlier_dup h prev r then survivors h (prev @ [r]) rs
      else r # survivors h (prev @ [r]) rs)"

text \<open>The one case the rule leaves open: the canonical url of one item spells the
  identity key of an item without url.\<close>

definition key_clash :: "heap \<Rightarrow> ref list \<Rightarrow> bool" where
  "key_clash h rs =
     (\<exists>p \<in> set rs. \<exists>q \<in> set rs. get_url (h ! p) \<noteq> [] \<and> get_url (h ! q) = [] \<and>
        canonicalize_url (get_url (h ! p)) = ''__empty__:'' @ str_nat q)"

section \<open>The fusion functions in closed form\<close>

text \<open>
  Both fusion functions run the same loops and differ in the contribution of one item.
  The definitions below name that common shape and what the loops compute: the urls in
  the order they are first met, the sum of the contributions of each url, the first item
  of each url, and the rows of the sorted table.
\<close>

fun first_seen :: "'a list \<Rightarrow> 'a list" where
  "first_seen [] = []"
| "first_seen (x # xs) = x # filter (\<lambda>y. y \<noteq> x) (first_seen xs)"







definition contrib_val :: "(result \<Rightarrow> py_error + rat) \<Rightarrow> result \<Rightarrow> rat" where
  "contrib_val c r = (case c r of Inl e \<Rightarrow> 0 | Inr x \<Rightarrow> x)"

definition url_total :: "(result \<Rightarrow> py_error + rat) \<Rightarrow> heap \<Rightarrow> ref list \<Rightarrow> string \<Rightarrow> rat" where
  "url_total c h xs u =
     sum_list (map (\<lambda>r. contrib_val c (h ! r)) (filter (\<lambda>r. get_url (h ! r) = u) xs))"

definition url_keys :: "heap \<Rightarrow> ref list \<Rightarrow> string list" where
  "url_keys h xs = first_seen (filter (\<lambda>u. u \<noteq> []) (map (\<lambda>r. get_url (h ! r)) xs))"

definition score_table :: "(result \<Rightarrow> py_error + rat) \<Rightarrow> heap \<Rightarrow> ref list \<Rightarrow> (string \<times> rat) list" where
  "score_table c h xs = map (\<lambda>u. (u, url_total c h xs u)) (url_keys h xs)"




definition fused_rows :: "(result \<Rightarrow> py_error + rat) \<Rightarrow> heap \<Rightarrow> ref list list \<Rightarrow> (string \<times> rat) list" where
  "fused_rows c h ls = sorted_desc (score_table c h (concat ls))"

section \<open>The fusion claims in the specification's words\<close>








section \<open>Example data\<close>

text \<open>A dict with all six keys, as the result sources build them.\<close>

definition mk_result :: "string \<Rightarrow> int \<Rightarrow> rat option \<Rightarrow> result" where
  "mk_result u rk sc = \<lparr>title = [], url = Some u, snippet = [], rank = Some rk, source = ''src'', score = sc\<rparr>"



section \<open>Properties of canonicalize_url\<close>

lemma lower_char_cases:
  "lower_char c = c \<or> lower_char c \<in> set ''abcdefghijklmnopqrstuvwxyz''"
proof (cases "map_of (zip ''ABCDEFGHIJKLMNOPQRSTUVWXYZ'' ''abcdefghijklmnopqrstuvwxyz'') c")
  case None
  then show ?thesis by (simp add: lower_char_def)
next
  case (Some d)
  then have "(c, d) \<in> set (zip ''ABCDEFGHIJKLMNOPQRSTUVWXYZ'' ''abcdefghijklmnopqrstuvwxyz'')"
    by (rule map_of_SomeD)
  then have "d \<in> set ''abcdefghijklmnopqrstuvwxyz''"
    by (rule set_zip_rightD)
  with Some show ?thesis by (simp add: lower_char_def)
qed

lemma lower_char_not_lf: "c \<noteq> CHR 0x0A \<Longrightarrow> lower_char c \<noteq> CHR 0x0A"
  using lower_char_cases [of c] by auto

lemma lf_lower: "CHR 0x0A \<notin> set s \<Longrightarrow> CHR 0x0A \<notin> set (lower s)"
proof
  assume a: "CHR 0x0A \<notin> set s" and "CHR 0x0A \<in> set (lower s)"
  then obtain c where c: "c \<in> set s" "lower_char c = CHR 0x0A"
    by (auto simp: lower_def)
  from a c(1) have "c \<noteq> CHR 0x0A" by auto
  with c(2) show False by (simp add: lower_char_not_lf)
qed

lemma lf_sub_scheme: "CHR 0x0A \<notin> set u \<Longrightarrow> CHR 0x0A \<notin> set (sub_scheme u)"
  by (auto simp: sub_scheme_def Let_def dest: in_set_dropD)

lemma sub_query_no_lf: "CHR 0x0A \<notin> set u \<Longrightarrow> sub_query u = truncate_query u"
  by (induction u) (auto simp: truncate_query_def end_anchor_def dropWhile_eq_Nil_conv)

lemma scheme_exclusive: "startswith u ''https://'' \<Longrightarrow> \<not> startswith u ''http://''"
proof
  assume a: "startswith u ''https://''" and b: "startswith u ''http://''"
  from a obtain r where "u = ''https://'' @ r"
    unfolding startswith_def by (metis append_take_drop_id)
  with b show False by (simp add: startswith_def)
qed

lemma sub_scheme_spec:
  "sub_scheme u = (case strip_scheme u of None \<Rightarrow> u | Some r \<Rightarrow> strip_www r)"
  using scheme_exclusive [of u]
  by (auto simp: sub_scheme_def strip_scheme_def strip_www_def Let_def)

lemma canonicalize_url_refines:
  assumes "CHR 0x0A \<notin> set (strip url_str)"
  shows "canonicalize_url url_str = canonicalize_spec url_str"
proof -
  have "CHR 0x0A \<notin> set (sub_scheme (lower (strip url_str)))"
    using assms by (intro lf_sub_scheme lf_lower)
  then have "sub_query (sub_scheme (lower (strip url_str))) = truncate_query (sub_scheme (lower (strip url_str)))"
    by (rule sub_query_no_lf)
  then show ?thesis
    by (simp add: canonicalize_url_def canonicalize_spec_def Let_def strip_slash_def sub_scheme_spec)
qed

lemmas canon_eval = canonicalize_url_def canonicalize_spec_def lower_def lower_char_def strip_def
  is_space_def sub_scheme_def startswith_def end_anchor_def strip_scheme_def strip_www_def
  truncate_query_def strip_slash_def

text \<open>
  C6. The claim: for every input string, canonicalize_url trims, lowercases, strips a
  leading scheme and a \<open>www.\<close> that follows it, truncates at the first \<open>?\<close> or \<open>#\<close>,
  and strips one trailing slash. The code does not truncate at a \<open>?\<close> or \<open>#\<close> that has
  a line feed somewhere after it: on \<open>"a?b\\nc"\<close> it returns the string as it is, where
  the steps of the claim give \<open>"a"\<close>. (Without a line feed in the trimmed input the code
  and the steps agree: \<open>canonicalize_url_refines\<close>; and both example urls of the claim
  give \<open>"example.com/page"\<close>: \<open>canonicalize_url_example\<close>.)
\<close>

theorem canonicalize_url_line_feed:
  "canonicalize_url (''a?b'' @ [CHR 0x0A] @ ''c'') = ''a?b'' @ [CHR 0x0A] @ ''c'' \<and>
   canonicalize_spec (''a?b'' @ [CHR 0x0A] @ ''c'') = ''a''"
  by (simp add: canon_eval)

lemma canonicalize_url_example:
  "canonicalize_url ''HTTPS://WWW.Example.com/page/'' = ''example.com/page'' \<and>
   canonicalize_url ''http://example.com/page'' = ''example.com/page''"
  by (simp add: canon_eval)

section \<open>Properties of deduplicate\<close>

lemma str_nat_not_Nil: "str_nat n \<noteq> []"
  by (subst str_nat.simps) simp

lemma digit_inj: "a < 10 \<Longrightarrow> b < 10 \<Longrightarrow> ''0123456789'' ! a = ''0123456789'' ! b \<Longrightarrow> a = b"
proof -
  assume "a < 10" "b < 10" "''0123456789'' ! a = ''0123456789'' ! b"
  moreover have "distinct ''0123456789''" by simp
  ultimately show "a = b" by (simp add: nth_eq_iff_index_eq)
qed

lemma str_nat_inj: "str_nat m = str_nat n \<Longrightarrow> m = n"
proof (induction m arbitrary: n rule: str_nat.induct)
  case (1 m)
  show ?case
  proof (cases "m < 10")
    case True
    then have sm: "str_nat m = [''0123456789'' ! m]" by (subst str_nat.simps) simp
    show ?thesis
    proof (cases "n < 10")
      case True
      then have "str_nat n = [''0123456789'' ! n]" by (subst str_nat.simps) simp
      with sm "1.prems" have "''0123456789'' ! m = ''0123456789'' ! n" by simp
      with \<open>m < 10\<close> \<open>n < 10\<close> show ?thesis by (rule digit_inj)
    next
      case False
      then have "str_nat n = str_nat (n div 10) @ [''0123456789'' ! (n mod 10)]"
        by (subst str_nat.simps) simp
      with sm "1.prems" str_nat_not_Nil [of "n div 10"] show ?thesis by simp
    qed
  next
    case False
    then have sm: "str_nat m = str_nat (m div 10) @ [''0123456789'' ! (m mod 10)]"
      by (subst str_nat.simps) simp
    show ?thesis
    proof (cases "n < 10")
      case True
      then have "str_nat n = [''0123456789'' ! n]" by (subst str_nat.simps) simp
      with sm "1.prems" str_nat_not_Nil [of "m div 10"] show ?thesis by simp
    next
      case nf: False
      then have "str_nat n = str_nat (n div 10) @ [''0123456789'' ! (n mod 10)]"
        by (subst str_nat.simps) simp
      with sm "1.prems" have a: "str_nat (m div 10) = str_nat (n div 10)"
        and b: "''0123456789'' ! (m mod 10) = ''0123456789'' ! (n mod 10)" by simp_all
      from "1.IH" [OF False a] have d: "m div 10 = n div 10" .
      have "m mod 10 = n mod 10" by (rule digit_inj [OF _ _ b]) simp_all
      with d show ?thesis by (metis div_mult_mod_eq)
    qed
  qed
qed

lemma dedup_loop_append: "dedup_loop h rs seen unique = unique @ dedup_loop h rs seen []"
proof (induction rs arbitrary: seen unique)
  case Nil
  show ?case by simp
next
  case (Cons r rs)
  show ?case
  proof (cases "dedup_key h r \<in> seen")
    case True
    then show ?thesis using Cons.IH [of seen unique] by simp
  next
    case False
    then show ?thesis
      using Cons.IH [of "insert (dedup_key h r) seen" "unique @ [r]"]
        Cons.IH [of "insert (dedup_key h r) seen" "[r]"]
      by simp
  qed
qed

lemma dedup_loop_Cons:
  "dedup_loop h (r # rs) seen [] =
     (if dedup_key h r \<in> seen then dedup_loop h rs seen []
      else r # dedup_loop h rs (insert (dedup_key h r) seen) [])"
  using dedup_loop_append [of h rs "insert (dedup_key h r) seen" "[r]"] by simp

lemma dedup_loop_keys:
  "distinct (map (dedup_key h) (dedup_loop h rs seen [])) \<and>
   dedup_key h ` set (dedup_loop h rs seen []) \<inter> seen = {} \<and>
   set (dedup_loop h rs seen []) \<subseteq> set rs"
proof (induction rs arbitrary: seen)
  case Nil
  show ?case by simp
next
  case (Cons r rs)
  show ?case
    using Cons.IH [of seen] Cons.IH [of "insert (dedup_key h r) seen"]
    by (auto simp: dedup_loop_Cons simp del: dedup_loop.simps)
qed

lemma dedup_loop_fixed:
  "distinct (map (dedup_key h) xs) \<Longrightarrow> dedup_key h ` set xs \<inter> seen = {} \<Longrightarrow>
   dedup_loop h xs seen [] = xs"
proof (induction xs arbitrary: seen)
  case Nil
  show ?case by simp
next
  case (Cons x xs)
  from Cons.prems have "dedup_key h x \<notin> seen" by auto
  moreover from Cons.prems have "dedup_loop h xs (insert (dedup_key h x) seen) [] = xs"
    by (intro Cons.IH) auto
  ultimately show ?case by (simp add: dedup_loop_Cons del: dedup_loop.simps)
qed

lemma dedup_loop_cong:
  "(\<And>r. dedup_key h' r = dedup_key h r) \<Longrightarrow> dedup_loop h' rs seen unique = dedup_loop h rs seen unique"
  by (induction rs arbitrary: seen unique) (simp_all add: Let_def)


lemma length_rerank: "length (rerank h rs i) = length h"
  by (induction rs arbitrary: h i) simp_all

lemma rerank_other: "a \<notin> set rs \<Longrightarrow> rerank h rs i ! a = h ! a"
  by (induction rs arbitrary: h i) simp_all

lemma update_rank_frame:
  "(h[r := (h ! r)\<lparr>rank := x\<rparr>] ! a)\<lparr>rank := y\<rparr> = (h ! a)\<lparr>rank := y\<rparr>"
  by (cases "r < length h") (simp_all add: nth_list_update list_update_beyond not_less)

lemma rerank_frame: "(rerank h rs i ! a)\<lparr>rank := y\<rparr> = (h ! a)\<lparr>rank := y\<rparr>"
  by (induction rs arbitrary: h i) (simp_all add: update_rank_frame)

lemma rerank_url: "get_url (rerank h rs i ! a) = get_url (h ! a)"
proof -
  have "url ((rerank h rs i ! a)\<lparr>rank := None\<rparr>) = url ((h ! a)\<lparr>rank := None\<rparr>)"
    by (simp only: rerank_frame)
  then show ?thesis by (simp add: get_url_def)
qed

lemma rerank_nth:
  "distinct rs \<Longrightarrow> j < length rs \<Longrightarrow> rs ! j < length h \<Longrightarrow>
   rerank h rs i ! (rs ! j) = (h ! (rs ! j))\<lparr>rank := Some (i + int j)\<rparr>"
proof (induction rs arbitrary: h i j)
  case Nil
  then show ?case by simp
next
  case (Cons r rs)
  show ?case
  proof (cases j)
    case 0
    with Cons.prems show ?thesis by (simp add: rerank_other)
  next
    case (Suc j')
    with Cons.prems have ne: "rs ! j' \<noteq> r" and j': "j' < length rs" and d: "distinct rs"
      and v: "rs ! j' < length h" by auto
    from Cons.IH [OF d j', of "h[r := (h ! r)\<lparr>rank := Some i\<rparr>]" "i + 1"] v ne Suc
    show ?thesis by (simp add: add.assoc)
  qed
qed

lemma rerank_idem: "distinct rs \<Longrightarrow> rerank (rerank h rs i) rs i = rerank h rs i"
proof (rule nth_equalityI)
  show "length (rerank (rerank h rs i) rs i) = length (rerank h rs i)"
    by (simp add: length_rerank)
next
  fix a
  assume d: "distinct rs" and "a < length (rerank (rerank h rs i) rs i)"
  then have a: "a < length h" by (simp add: length_rerank)
  show "rerank (rerank h rs i) rs i ! a = rerank h rs i ! a"
  proof (cases "a \<in> set rs")
    case False
    then show ?thesis by (simp add: rerank_other)
  next
    case True
    then obtain j where j: "j < length rs" "rs ! j = a" by (auto simp: in_set_conv_nth)
    from rerank_nth [OF d j(1), of "rerank h rs i" i] rerank_nth [OF d j(1), of h i] j(2) a
    show ?thesis by (simp add: length_rerank)
  qed
qed

lemma dedup_key_rerank: "dedup_key (rerank h rs i) r = dedup_key h r"
  by (simp add: dedup_key_def rerank_url)

lemma key_eq_iff:
  assumes "\<not> key_clash h rs" "p \<in> set rs" "r \<in> set rs"
  shows "(dedup_key h p = dedup_key h r) =
         (if get_url (h ! r) = [] then p = r
          else get_url (h ! p) \<noteq> [] \<and>
               canonicalize_url (get_url (h ! p)) = canonicalize_url (get_url (h ! r)))"
proof (cases "get_url (h ! r) = []")
  case True
  note r = this
  show ?thesis
  proof (cases "get_url (h ! p) = []")
    case True
    with r show ?thesis by (auto simp: dedup_key_def dest: str_nat_inj)
  next
    case False
    with r assms have "canonicalize_url (get_url (h ! p)) \<noteq> ''__empty__:'' @ str_nat r"
      unfolding key_clash_def by blast
    moreover from False r have "p \<noteq> r" by auto
    ultimately show ?thesis using False r by (simp add: dedup_key_def)
  qed
next
  case False
  note r = this
  show ?thesis
  proof (cases "get_url (h ! p) = []")
    case True
    with r assms have "canonicalize_url (get_url (h ! r)) \<noteq> ''__empty__:'' @ str_nat p"
      unfolding key_clash_def by blast
    then have "''__empty__:'' @ str_nat p \<noteq> canonicalize_url (get_url (h ! r))" by (rule not_sym)
    with True r show ?thesis by (simp add: dedup_key_def)
  next
    case False
    with r show ?thesis by (simp add: dedup_key_def)
  qed
qed

lemma seen_iff:
  assumes "\<not> key_clash h rs" "set prev \<subseteq> set rs" "r \<in> set rs"
  shows "(dedup_key h r \<in> dedup_key h ` set prev) = earlier_dup h prev r"
proof -
  have "(dedup_key h r \<in> dedup_key h ` set prev) = (\<exists>p \<in> set prev. dedup_key h p = dedup_key h r)"
    by (metis image_iff)
  also have "\<dots> = (\<exists>p \<in> set prev. if get_url (h ! r) = [] then p = r
          else get_url (h ! p) \<noteq> [] \<and>
               canonicalize_url (get_url (h ! p)) = canonicalize_url (get_url (h ! r)))"
    using assms by (intro bex_cong refl key_eq_iff [of h rs]) auto
  also have "\<dots> = earlier_dup h prev r"
    by (auto simp: earlier_dup_def)
  finally show ?thesis .
qed

lemma dedup_loop_survivors:
  "\<not> key_clash h ys \<Longrightarrow> set prev \<union> set rs \<subseteq> set ys \<Longrightarrow>
   dedup_loop h rs (dedup_key h ` set prev) [] = survivors h prev rs"
proof (induction rs arbitrary: prev)
  case Nil
  show ?case by simp
next
  case (Cons r rs)
  from Cons.prems have s: "(dedup_key h r \<in> dedup_key h ` set prev) = earlier_dup h prev r"
    by (intro seen_iff [of h ys]) auto
  from Cons.prems have "dedup_loop h rs (dedup_key h ` set (prev @ [r])) [] = survivors h (prev @ [r]) rs"
    by (intro Cons.IH) auto
  then have ih: "dedup_loop h rs (insert (dedup_key h r) (dedup_key h ` set prev)) [] = survivors h (prev @ [r]) rs"
    by simp
  show ?case
  proof (cases "earlier_dup h prev r")
    case True
    with s have "insert (dedup_key h r) (dedup_key h ` set prev) = dedup_key h ` set prev" by auto
    with ih True s show ?thesis by (simp add: dedup_loop_Cons del: dedup_loop.simps)
  next
    case False
    with ih s show ?thesis by (simp add: dedup_loop_Cons del: dedup_loop.simps)
  qed
qed

lemma distinct_dedup_loop: "distinct (dedup_loop h rs seen [])"
  using dedup_loop_keys [of h rs seen] by (auto simp: distinct_map)

text \<open>
  C5, as amended. The claim says that every Result without url is kept. The code keys
  such a Result by \<open>id(r)\<close>, so an object that occurs again in the list is dropped.
  What holds: unless the canonical url of an item spells the identity key of an item
  without url, the output is the input with every item removed that has a url whose
  canonical form an earlier item with a url already had, or that has no url and is the
  same object as an earlier entry; the survivors keep their order, survivor number \<open>i\<close>
  (from 1) is the input object with only its rank overwritten by \<open>i\<close>, and no other
  object changes.
\<close>

theorem deduplicate_first_seen:
  assumes "\<not> key_clash h results" and "\<forall>r \<in> set results. r < length h"
    and "deduplicate h results = (h', out)"
  shows "out = survivors h [] results \<and> length h' = length h \<and>
         (\<forall>i < length out. h' ! (out ! i) = (h ! (out ! i))\<lparr>rank := Some (int i + 1)\<rparr>) \<and>
         (\<forall>a. a \<notin> set out \<longrightarrow> h' ! a = h ! a)"
proof -
  from assms(3) have out: "out = dedup_loop h results {} []" and h': "h' = rerank h out 1"
    by (auto simp: deduplicate_def Let_def)
  from dedup_loop_survivors [of h results "[]" results] assms(1) out
  have 1: "out = survivors h [] results" by simp
  have d: "distinct out" unfolding out by (rule distinct_dedup_loop)
  have sub: "set out \<subseteq> set results" unfolding out using dedup_loop_keys [of h results "{}"] by simp
  have 3: "\<forall>i < length out. h' ! (out ! i) = (h ! (out ! i))\<lparr>rank := Some (int i + 1)\<rparr>"
  proof (intro allI impI)
    fix i assume i: "i < length out"
    with sub assms(2) have "out ! i < length h" by (meson nth_mem subsetD)
    from rerank_nth [OF d i this, of 1] show "h' ! (out ! i) = (h ! (out ! i))\<lparr>rank := Some (int i + 1)\<rparr>"
      by (simp add: h' add.commute)
  qed
  show ?thesis using 1 3 by (simp add: h' length_rerank rerank_other)
qed

text \<open>
  C7. Deduplicating the output of deduplicate again changes nothing: the second call
  returns the same list and leaves every object as the first call left it.
\<close>

theorem deduplicate_idempotent:
  "deduplicate (fst (deduplicate h xs)) (snd (deduplicate h xs)) = deduplicate h xs"
proof -
  define out where "out = dedup_loop h xs {} []"
  define h1 where "h1 = rerank h out 1"
  have d: "distinct (map (dedup_key h) out)" unfolding out_def using dedup_loop_keys [of h xs "{}"] by simp
  have "dedup_loop h1 out {} [] = dedup_loop h out {} []"
    unfolding h1_def by (rule dedup_loop_cong) (rule dedup_key_rerank)
  also have "\<dots> = out" using d by (intro dedup_loop_fixed) simp_all
  finally have a: "dedup_loop h1 out {} [] = out" .
  from d have "distinct out" by (simp add: distinct_map)
  then have b: "rerank h1 out 1 = h1" unfolding h1_def by (rule rerank_idem)
  have "deduplicate h xs = (h1, out)" by (simp add: deduplicate_def Let_def out_def h1_def)
  moreover have "deduplicate h1 out = (h1, out)" by (simp add: deduplicate_def Let_def a b)
  ultimately show ?thesis by simp
qed


lemma str_nat_digit: "n < 10 \<Longrightarrow> str_nat n = [''0123456789'' ! n]"
  by (subst str_nat.simps) simp

lemmas dedup_eval = deduplicate_def dedup_key_def get_url_def mk_result_def str_nat_digit canon_eval

theorem deduplicate_first_seen_witness:
  "\<not> key_clash [mk_result [] 7 None, mk_result ''http://x.com/'' 7 None,
                  mk_result [] 7 None, mk_result ''HTTP://www.x.com'' 1 (Some 5)] [0, 1, 2, 3] \<and>
   deduplicate [mk_result [] 7 None, mk_result ''http://x.com/'' 7 None,
                mk_result [] 7 None, mk_result ''HTTP://www.x.com'' 1 (Some 5)] [0, 1, 2, 3] =
     ([mk_result [] 1 None, mk_result ''http://x.com/'' 2 None,
       mk_result [] 3 None, mk_result ''HTTP://www.x.com'' 1 (Some 5)], [0, 1, 2]) \<and>
   survivors [mk_result [] 7 None, mk_result ''http://x.com/'' 7 None,
                mk_result [] 7 None, mk_result ''HTTP://www.x.com'' 1 (Some 5)] [] [0, 1, 2, 3] = [0, 1, 2]"
proof -
  let ?h = "[mk_result [] 7 None, mk_result ''http://x.com/'' 7 None,
             mk_result [] 7 None, mk_result ''HTTP://www.x.com'' 1 (Some 5)]"
  have c: "\<not> key_clash ?h [0, 1, 2, 3]"
    by (simp add: key_clash_def dedup_eval)
  have v: "\<forall>r \<in> set [0, 1, 2, 3]. r < length ?h" by simp
  have e: "deduplicate ?h [0, 1, 2, 3] =
     ([mk_result [] 1 None, mk_result ''http://x.com/'' 2 None,
       mk_result [] 3 None, mk_result ''HTTP://www.x.com'' 1 (Some 5)], [0, 1, 2])"
    by (simp add: dedup_eval)
  from deduplicate_first_seen [OF c v e] have "[0, 1, 2] = survivors ?h [] [0, 1, 2, 3]" by blast
  with c e show ?thesis by simp
qed

theorem deduplicate_same_object_counterexample:
  "get_url ([mk_result [] 1 None] ! 0) = [] \<and>
   snd (deduplicate [mk_result [] 1 None] [0, 0, 0]) = [0] \<and>
   get_url ([mk_result [] 1 None, mk_result ''__empty__:0'' 2 None] ! 1) \<noteq> [] \<and>
   snd (deduplicate [mk_result [] 1 None, mk_result ''__empty__:0'' 2 None] [0, 1]) = [0]"
  by (simp add: dedup_eval)

theorem deduplicate_idempotent_witness:
  "deduplicate (fst (deduplicate [mk_result ''a.com'' 1 None, mk_result ''A.com/'' 2 None] [0, 1]))
     (snd (deduplicate [mk_result ''a.com'' 1 None, mk_result ''A.com/'' 2 None] [0, 1])) =
   deduplicate [mk_result ''a.com'' 1 None, mk_result ''A.com/'' 2 None] [0, 1] \<and>
   deduplicate [mk_result ''a.com'' 1 None, mk_result ''A.com/'' 2 None] [0, 1] = 
     ([mk_result ''a.com'' 1 None, mk_result ''A.com/'' 2 None], [0])"
  using deduplicate_idempotent [of "[mk_result ''a.com'' 1 None, mk_result ''A.com/'' 2 None]" "[0, 1]"]
  by (simp add: dedup_eval)

section \<open>Properties of minmax_normalize_scores\<close>



lemma upd_score_length:
  "length (case score (h ! r) of None \<Rightarrow> h | Some s \<Rightarrow> h[r := (h ! r)\<lparr>score := Some (f s)\<rparr>]) = length h"
  by (simp split: option.splits)






















section \<open>Properties of the fusion functions\<close>




























lemma length_fused_rows: "length (fused_rows c h ls) = length (url_keys h (concat ls))"
  by (simp add: fused_rows_def sorted_desc_def score_table_def)

































section \<open>The claims about the fusion functions\<close>



















end
